theory Spec2Isabelle
  imports Main
begin

section \<open>The Search integration: data model\<close>

text \<open>
  The websocket command accepts exactly eight item types (the \<open>vol.In\<close> tuple of
  \<open>websocket_search_related\<close>); \<open>Searcher\<close> has one \<open>_resolve_<type>\<close> method for each.
  The item type is therefore a closed enumeration; \<open>kind_name\<close> gives the source string.
\<close>

datatype kind = Area | Automation | Config_entry | Device | Entity | Group | Scene | Script

fun kind_name :: "kind \<Rightarrow> string" where
  "kind_name Area = ''area''"
| "kind_name Automation = ''automation''"
| "kind_name Config_entry = ''config_entry''"
| "kind_name Device = ''device''"
| "kind_name Entity = ''entity''"
| "kind_name Group = ''group''"
| "kind_name Scene = ''scene''"
| "kind_name Script = ''script''"

type_synonym node = "kind \<times> string"

text \<open>\<open>Searcher.DONT_RESOLVE\<close>: the types that are not explored further.\<close>

definition DONT_RESOLVE :: "kind set" where
  "DONT_RESOLVE = {Scene, Automation, Script, Group, Config_entry, Area}"

text \<open>
  The device registry, the entity registry and the scene and group integrations are read
  through queries only. Their code is outside the component, so they are parameters of the
  model, one field of \<open>hass\<close> for each query the resolver makes:
  \<^item> \<open>async_entries_for_area\<close>: \<open>device_registry.async_entries_for_area\<close>, as the list of
    the \<open>id\<close>s of the devices;
  \<^item> \<open>device_async_get\<close>: \<open>self._device_reg.async_get\<close>;
  \<^item> \<open>async_entries_for_device\<close>: \<open>entity_registry.async_entries_for_device\<close>, as the
    list of the \<open>entity_id\<close>s;
  \<^item> \<open>scenes_with_entity\<close>, \<open>entities_in_scene\<close>: the functions of the scene integration;
  \<^item> \<open>groups_with_entity\<close>, \<open>get_entity_ids\<close>: the functions of the group integration;
  \<^item> \<open>entity_async_get\<close>: \<open>self._entity_reg.async_get\<close>;
  \<^item> \<open>device_entries_for_config_entry\<close>, \<open>entity_entries_for_config_entry\<close>: the two
    \<open>async_entries_for_config_entry\<close>, as lists of \<open>id\<close>s and of \<open>entity_id\<close>s.

  A device entry carries \<open>area_id\<close> and \<open>config_entries\<close>, an entity entry \<open>device_id\<close>
  and \<open>config_entry_id\<close>: the only attributes the resolver reads. Every query is a total
  function: a query that finds nothing returns the empty list or \<open>None\<close>.
\<close>

record device_entry =
  area_id :: "string option"
  config_entries :: "string list"

record entity_entry =
  device_id :: "string option"
  config_entry_id :: "string option"

record hass =
  async_entries_for_area :: "string \<Rightarrow> string list"
  device_async_get :: "string \<Rightarrow> device_entry option"
  async_entries_for_device :: "string \<Rightarrow> string list"
  scenes_with_entity :: "string \<Rightarrow> string list"
  groups_with_entity :: "string \<Rightarrow> string list"
  entity_async_get :: "string \<Rightarrow> entity_entry option"
  get_entity_ids :: "string \<Rightarrow> string list"
  entities_in_scene :: "string \<Rightarrow> string list"
  device_entries_for_config_entry :: "string \<Rightarrow> string list"
  entity_entries_for_config_entry :: "string \<Rightarrow> string list"

text \<open>
  Modelled from the spec: \<open>split_entity_id\<close> lives in \<open>homeassistant.core\<close>, which is not
  part of the component. The spec speaks of an identifier that "belongs to the
  scene/automation/script/group namespace", with \<open>script.foo\<close> as the example of an id of the
  script namespace: the domain is the text before the first dot.
\<close>

definition split_entity_id :: "string \<Rightarrow> string" where
  "split_entity_id entity_id = takeWhile (\<lambda>c. c \<noteq> CHR ''.'') entity_id"

text \<open>
  The test \<open>domain in ("scene", "automation", "script", "group")\<close> of \<open>_resolve_entity\<close>,
  together with the use of the domain string as the item type.
\<close>

definition domain_kind :: "string \<Rightarrow> kind option" where
  "domain_kind d =
     (if d = ''scene'' then Some Scene
      else if d = ''automation'' then Some Automation
      else if d = ''script'' then Some Script
      else if d = ''group'' then Some Group
      else None)"

text \<open>
  The state of a \<open>Searcher\<close>: \<open>results\<close> is a \<open>defaultdict(set)\<close>, a total function from item
  types to sets with the empty set as default; \<open>_to_resolve\<close> is a set of pairs, kept here as
  a duplicate-free list so that \<open>pop\<close> can be given any order (see \<open>drain_step\<close>).
\<close>

record searcher =
  results :: "kind \<Rightarrow> string set"
  to_resolve :: "node list"

definition new_searcher :: searcher where
  "new_searcher = \<lparr>results = (\<lambda>_. {}), to_resolve = []\<rparr>"

datatype error = KeyError

section \<open>Operations\<close>

text \<open>\<open>set.add\<close> on the list that stands for \<open>_to_resolve\<close>.\<close>

definition set_add :: "'a \<Rightarrow> 'a list \<Rightarrow> 'a list" where
  "set_add x xs = (if x \<in> set xs then xs else xs @ [x])"

definition add_or_resolve :: "kind \<Rightarrow> string \<Rightarrow> searcher \<Rightarrow> searcher" where
  "add_or_resolve item_type item_id s =
     (if item_id \<in> results s item_type then s
      else
        let s1 = s\<lparr>results := (results s)(item_type := insert item_id (results s item_type))\<rparr>
        in if item_type \<notin> DONT_RESOLVE
           then s1\<lparr>to_resolve := set_add (item_type, item_id) (to_resolve s1)\<rparr>
           else s1)"

definition resolve_area :: "hass \<Rightarrow> string \<Rightarrow> searcher \<Rightarrow> searcher" where
  "resolve_area h a s = fold (add_or_resolve Device) (async_entries_for_area h a) s"

text \<open>
  \<open>if device_entry.area_id:\<close> is a truth test: \<open>None\<close> and the empty string are both skipped.
\<close>

definition resolve_device :: "hass \<Rightarrow> string \<Rightarrow> searcher \<Rightarrow> searcher" where
  "resolve_device h d s =
     (let s1 = (case device_async_get h d of
                  None \<Rightarrow> s
                | Some e \<Rightarrow>
                    let s0 = (case area_id e of
                                None \<Rightarrow> s
                              | Some a \<Rightarrow> if a \<noteq> [] then add_or_resolve Area a s else s)
                    in fold (add_or_resolve Config_entry) (config_entries e) s0)
      in fold (add_or_resolve Entity) (async_entries_for_device h d) s1)"

text \<open>
  \<open>if entity_entry.device_id:\<close> is a truth test, \<open>config_entry_id is not None\<close> is not.
\<close>

definition resolve_entity :: "hass \<Rightarrow> string \<Rightarrow> searcher \<Rightarrow> searcher" where
  "resolve_entity h e s =
     (let s1 = fold (add_or_resolve Entity) (scenes_with_entity h e) s;
          s2 = fold (add_or_resolve Entity) (groups_with_entity h e) s1;
          s3 = (case entity_async_get h e of
                  None \<Rightarrow> s2
                | Some en \<Rightarrow>
                    let s0 = (case device_id en of
                                None \<Rightarrow> s2
                              | Some d \<Rightarrow> if d \<noteq> [] then add_or_resolve Device d s2 else s2)
                    in (case config_entry_id en of
                          None \<Rightarrow> s0
                        | Some c \<Rightarrow> add_or_resolve Config_entry c s0))
      in case domain_kind (split_entity_id e) of
           None \<Rightarrow> s3
         | Some k \<Rightarrow> add_or_resolve k e s3)"

definition resolve_automation :: "hass \<Rightarrow> string \<Rightarrow> searcher \<Rightarrow> searcher" where
  "resolve_automation h a s = s"

definition resolve_script :: "hass \<Rightarrow> string \<Rightarrow> searcher \<Rightarrow> searcher" where
  "resolve_script h a s = s"

definition resolve_group :: "hass \<Rightarrow> string \<Rightarrow> searcher \<Rightarrow> searcher" where
  "resolve_group h g s = fold (add_or_resolve Entity) (get_entity_ids h g) s"

definition resolve_scene :: "hass \<Rightarrow> string \<Rightarrow> searcher \<Rightarrow> searcher" where
  "resolve_scene h sc s = fold (add_or_resolve Entity) (entities_in_scene h sc) s"

definition resolve_config_entry :: "hass \<Rightarrow> string \<Rightarrow> searcher \<Rightarrow> searcher" where
  "resolve_config_entry h c s =
     (let s1 = fold (add_or_resolve Device) (device_entries_for_config_entry h c) s
      in fold (add_or_resolve Entity) (entity_entries_for_config_entry h c) s1)"

text \<open>The dispatch \<open>getattr(self, f"_resolve_{search_type}")(search_id)\<close>.\<close>

fun resolve :: "hass \<Rightarrow> node \<Rightarrow> searcher \<Rightarrow> searcher" where
  "resolve h (Area, i) s = resolve_area h i s"
| "resolve h (Automation, i) s = resolve_automation h i s"
| "resolve h (Config_entry, i) s = resolve_config_entry h i s"
| "resolve h (Device, i) s = resolve_device h i s"
| "resolve h (Entity, i) s = resolve_entity h i s"
| "resolve h (Group, i) s = resolve_group h i s"
| "resolve h (Scene, i) s = resolve_scene h i s"
| "resolve h (Script, i) s = resolve_script h i s"

text \<open>
  One turn of \<open>while self._to_resolve\<close>. \<open>set.pop\<close> returns an arbitrary element. The order is
  a parameter: \<open>pick\<close> sees the pending pairs and names the position to pop (taken modulo
  the length, so every function is a legal order). Since a popped pair never comes back, no
  two turns of one run see the same pending list, so a function of the list can express
  every sequence of choices. With nothing pending the loop has stopped and the step is the
  identity.
\<close>

definition drain_step :: "hass \<Rightarrow> (node list \<Rightarrow> nat) \<Rightarrow> searcher \<Rightarrow> searcher" where
  "drain_step h pick s =
     (let wl = to_resolve s in
      if wl = [] then s
      else
        let j = pick wl mod length wl
        in resolve h (wl ! j) (s\<lparr>to_resolve := take j wl @ drop (Suc j) wl\<rparr>))"

text \<open>The loop itself; \<open>None\<close> when it does not end.\<close>

partial_function (option) drain :: "hass \<Rightarrow> (node list \<Rightarrow> nat) \<Rightarrow> searcher \<Rightarrow> searcher option"
  where
  "drain h pick s =
     (if to_resolve s = [] then Some s else drain h pick (drain_step h pick s))"

text \<open>The four subtractions from the \<open>entity\<close> bucket, in the order of the source.\<close>

definition clean_up :: "(kind \<Rightarrow> string set) \<Rightarrow> (kind \<Rightarrow> string set)" where
  "clean_up r =
     (let r1 = r(Entity := r Entity - r Script);
          r2 = r1(Entity := r1 Entity - r1 Scene);
          r3 = r2(Entity := r2 Entity - r2 Automation)
      in r3(Entity := r3 Entity - r3 Group))"

text \<open>
  \<open>set.remove\<close> raises \<open>KeyError\<close> when the element is absent; the dictionary comprehension
  keeps the non-empty buckets.
\<close>

definition finish :: "kind \<Rightarrow> string \<Rightarrow> (kind \<Rightarrow> string set) \<Rightarrow> error + (kind \<rightharpoonup> string set)"
  where
  "finish item_type item_id r =
     (let r4 = clean_up r in
      if item_id \<in> r4 item_type
      then
        let r5 = r4(item_type := r4 item_type - {item_id})
        in Inr (\<lambda>key. if r5 key = {} then None else Some (r5 key))
      else Inl KeyError)"

definition seed :: "searcher \<Rightarrow> kind \<Rightarrow> string \<Rightarrow> searcher" where
  "seed s item_type item_id =
     s\<lparr>results := (results s)(item_type := insert item_id (results s item_type)),
       to_resolve := set_add (item_type, item_id) (to_resolve s)\<rparr>"

definition async_search ::
  "hass \<Rightarrow> (node list \<Rightarrow> nat) \<Rightarrow> searcher \<Rightarrow> kind \<Rightarrow> string
     \<Rightarrow> (error + (kind \<rightharpoonup> string set)) option" where
  "async_search h pick s item_type item_id =
     (case drain h pick (seed s item_type item_id) of
        None \<Rightarrow> None
      | Some s' \<Rightarrow> Some (finish item_type item_id (results s')))"

text \<open>
  \<open>websocket_search_related\<close> builds a fresh \<open>Searcher\<close> for every request and searches
  with it.
\<close>

definition search ::
  "hass \<Rightarrow> (node list \<Rightarrow> nat) \<Rightarrow> kind \<Rightarrow> string \<Rightarrow> (error + (kind \<rightharpoonup> string set)) option"
  where
  "search h pick item_type item_id = async_search h pick new_searcher item_type item_id"

section \<open>Reading a search outcome\<close>

definition bucket :: "(kind \<rightharpoonup> string set) \<Rightarrow> kind \<Rightarrow> string set" where
  "bucket m k = (case m k of None \<Rightarrow> {} | Some A \<Rightarrow> A)"

definition found :: "(error + (kind \<rightharpoonup> string set)) option \<Rightarrow> kind \<Rightarrow> string \<Rightarrow> bool" where
  "found r k i = (case r of Some (Inr m) \<Rightarrow> i \<in> bucket m k | _ \<Rightarrow> False)"

text \<open>A system with nothing registered: every query comes back empty.\<close>

definition empty_hass :: hass where
  "empty_hass =
     \<lparr>async_entries_for_area = (\<lambda>_. []), device_async_get = (\<lambda>_. None),
      async_entries_for_device = (\<lambda>_. []), scenes_with_entity = (\<lambda>_. []),
      groups_with_entity = (\<lambda>_. []), entity_async_get = (\<lambda>_. None),
      get_entity_ids = (\<lambda>_. []), entities_in_scene = (\<lambda>_. []),
      device_entries_for_config_entry = (\<lambda>_. []),
      entity_entries_for_config_entry = (\<lambda>_. [])\<rparr>"

definition pop_first :: "node list \<Rightarrow> nat" where
  "pop_first wl = 0"

definition pop_last :: "node list \<Rightarrow> nat" where
  "pop_last wl = length wl - 1"

text \<open>
  A small installation with reference cycles: area \<open>a1\<close> holds device \<open>d1\<close>, which points
  back to \<open>a1\<close> and was set up by config entry \<open>c1\<close>; \<open>light.a\<close> and \<open>light.b\<close> belong to
  \<open>d1\<close>; scene \<open>scene.s\<close> stores the two lights, \<open>light.c\<close> (not in the entity registry) and
  the script \<open>script.foo\<close>, and each of the four is reported as used by \<open>scene.s\<close>.
\<close>

definition demo_hass :: hass where
  "demo_hass =
     \<lparr>async_entries_for_area = (\<lambda>a. if a = ''a1'' then [''d1''] else []),
      device_async_get =
        (\<lambda>d. if d = ''d1'' then Some \<lparr>area_id = Some ''a1'', config_entries = [''c1'']\<rparr>
              else None),
      async_entries_for_device = (\<lambda>d. if d = ''d1'' then [''light.a'', ''light.b''] else []),
      scenes_with_entity =
        (\<lambda>e. if e \<in> set [''light.a'', ''light.b'', ''light.c'', ''script.foo'']
              then [''scene.s''] else []),
      groups_with_entity = (\<lambda>_. []),
      entity_async_get =
        (\<lambda>e. if e \<in> set [''light.a'', ''light.b'']
              then Some \<lparr>device_id = Some ''d1'', config_entry_id = Some ''c1''\<rparr> else None),
      get_entity_ids = (\<lambda>_. []),
      entities_in_scene =
        (\<lambda>s. if s = ''scene.s'' then [''light.a'', ''light.b'', ''light.c'', ''script.foo'']
              else []),
      device_entries_for_config_entry = (\<lambda>c. if c = ''c1'' then [''d1''] else []),
      entity_entries_for_config_entry =
        (\<lambda>c. if c = ''c1'' then [''light.a'', ''light.b''] else [])\<rparr>"

section \<open>The relation the search computes\<close>

text \<open>
  The calls of \<open>_add_or_resolve\<close> that \<open>_resolve_<kind>\<close> makes for one id, in the order of
  the source (lemma \<open>resolve_add_all\<close> below ties this list to \<open>resolve\<close>).
\<close>

fun neighbours :: "hass \<Rightarrow> node \<Rightarrow> node list" where
  "neighbours h (Area, i) = map (Pair Device) (async_entries_for_area h i)"
| "neighbours h (Automation, i) = []"
| "neighbours h (Config_entry, i) =
     map (Pair Device) (device_entries_for_config_entry h i)
     @ map (Pair Entity) (entity_entries_for_config_entry h i)"
| "neighbours h (Device, i) =
     (case device_async_get h i of
        None \<Rightarrow> []
      | Some e \<Rightarrow>
          (case area_id e of None \<Rightarrow> [] | Some a \<Rightarrow> if a \<noteq> [] then [(Area, a)] else [])
          @ map (Pair Config_entry) (config_entries e))
     @ map (Pair Entity) (async_entries_for_device h i)"
| "neighbours h (Entity, i) =
     map (Pair Entity) (scenes_with_entity h i)
     @ map (Pair Entity) (groups_with_entity h i)
     @ (case entity_async_get h i of
          None \<Rightarrow> []
        | Some en \<Rightarrow>
            (case device_id en of None \<Rightarrow> [] | Some d \<Rightarrow> if d \<noteq> [] then [(Device, d)] else [])
            @ (case config_entry_id en of None \<Rightarrow> [] | Some c \<Rightarrow> [(Config_entry, c)]))
     @ (case domain_kind (split_entity_id i) of None \<Rightarrow> [] | Some k \<Rightarrow> [(k, i)])"
| "neighbours h (Group, i) = map (Pair Entity) (get_entity_ids h i)"
| "neighbours h (Scene, i) = map (Pair Entity) (entities_in_scene h i)"
| "neighbours h (Script, i) = []"

definition add_all :: "node list \<Rightarrow> searcher \<Rightarrow> searcher" where
  "add_all ns s = fold (\<lambda>n. add_or_resolve (fst n) (snd n)) ns s"

text \<open>The pairs recorded in \<open>results\<close>.\<close>

definition visited :: "searcher \<Rightarrow> node set" where
  "visited s = {n. snd n \<in> results s (fst n)}"

text \<open>
  A pair is expanded when it is the entry point or its kind is not in \<open>DONT_RESOLVE\<close>; the
  related pairs are what expansion reaches from the entry point.
\<close>

definition expanded :: "node \<Rightarrow> node \<Rightarrow> bool" where
  "expanded entry n = (n = entry \<or> fst n \<notin> DONT_RESOLVE)"

inductive_set related :: "hass \<Rightarrow> node \<Rightarrow> node set" for h :: hass and entry :: node where
  entry: "entry \<in> related h entry"
| step: "n \<in> related h entry \<Longrightarrow> expanded entry n \<Longrightarrow> m \<in> set (neighbours h n)
         \<Longrightarrow> m \<in> related h entry"

definition related_ids :: "hass \<Rightarrow> node \<Rightarrow> kind \<Rightarrow> string set" where
  "related_ids h entry k = {i. (k, i) \<in> related h entry}"

text \<open>The state of the searcher after \<open>t\<close> turns of the loop of a fresh search.\<close>

definition run :: "hass \<Rightarrow> (node list \<Rightarrow> nat) \<Rightarrow> kind \<Rightarrow> string \<Rightarrow> nat \<Rightarrow> searcher" where
  "run h pick item_type item_id t = (drain_step h pick ^^ t) (seed new_searcher item_type item_id)"

text \<open>What holds of the searcher between two turns of the loop.\<close>

definition search_inv :: "hass \<Rightarrow> node \<Rightarrow> searcher \<Rightarrow> bool" where
  "search_inv h entry s =
     (entry \<in> visited s \<and> visited s \<subseteq> related h entry \<and> finite (visited s)
      \<and> set (to_resolve s) \<subseteq> visited s \<and> distinct (to_resolve s)
      \<and> (\<forall>n \<in> set (to_resolve s). expanded entry n)
      \<and> (\<forall>n \<in> visited s. expanded entry n \<longrightarrow> n \<notin> set (to_resolve s)
            \<longrightarrow> set (neighbours h n) \<subseteq> visited s))"

text \<open>
  Every id that some query of the system can return. The object graph is finite when there
  are finitely many of them.
\<close>

definition graph_ids :: "hass \<Rightarrow> string set" where
  "graph_ids h =
     {y. \<exists>x.
        y \<in> set (async_entries_for_area h x)
        \<or> (\<exists>e. device_async_get h x = Some e
               \<and> (area_id e = Some y \<or> y \<in> set (config_entries e)))
        \<or> y \<in> set (async_entries_for_device h x)
        \<or> y \<in> set (scenes_with_entity h x)
        \<or> y \<in> set (groups_with_entity h x)
        \<or> (\<exists>en. entity_async_get h x = Some en
                \<and> (device_id en = Some y \<or> config_entry_id en = Some y))
        \<or> y \<in> set (get_entity_ids h x)
        \<or> y \<in> set (entities_in_scene h x)
        \<or> y \<in> set (device_entries_for_config_entry h x)
        \<or> y \<in> set (entity_entries_for_config_entry h x)}"

definition finite_graph :: "hass \<Rightarrow> bool" where
  "finite_graph h = finite (graph_ids h)"

text \<open>
  An id that does not resolve: every query that the rule of its kind makes for it comes back
  empty (the automation and script rules make none).
\<close>

fun dangling :: "hass \<Rightarrow> kind \<Rightarrow> string \<Rightarrow> bool" where
  "dangling h Area i = (async_entries_for_area h i = [])"
| "dangling h Automation i = True"
| "dangling h Config_entry i =
     (device_entries_for_config_entry h i = [] \<and> entity_entries_for_config_entry h i = [])"
| "dangling h Device i = (device_async_get h i = None \<and> async_entries_for_device h i = [])"
| "dangling h Entity i =
     (scenes_with_entity h i = [] \<and> groups_with_entity h i = [] \<and> entity_async_get h i = None)"
| "dangling h Group i = (get_entity_ids h i = [])"
| "dangling h Scene i = (entities_in_scene h i = [])"
| "dangling h Script i = True"

text \<open>The outcomes of three searches on \<open>demo_hass\<close>, used as test data below.\<close>

definition demo_scene_result :: "kind \<rightharpoonup> string set" where
  "demo_scene_result =
     [Area \<mapsto> {''a1''}, Config_entry \<mapsto> {''c1''}, Device \<mapsto> {''d1''},
      Entity \<mapsto> {''light.a'', ''light.b'', ''light.c''}, Script \<mapsto> {''script.foo''}]"

definition demo_light_result :: "kind \<rightharpoonup> string set" where
  "demo_light_result =
     [Area \<mapsto> {''a1''}, Config_entry \<mapsto> {''c1''}, Device \<mapsto> {''d1''},
      Entity \<mapsto> {''light.b''}, Scene \<mapsto> {''scene.s''}]"

definition light_c_final :: searcher where
  "light_c_final =
     \<lparr>results = (\<lambda>_. {})(Entity := {''light.c'', ''scene.s''}, Scene := {''scene.s''}),
      to_resolve = []\<rparr>"

text \<open>Every pending pair is recorded in the bucket of its kind.\<close>

definition pending_recorded :: "searcher \<Rightarrow> bool" where
  "pending_recorded s = (\<forall>n \<in> set (to_resolve s). snd n \<in> results s (fst n))"

section \<open>Evaluating the loop\<close>

lemma drain_done: "to_resolve s = [] \<Longrightarrow> drain h pick s = Some s"
  by (subst drain.simps) simp

lemma drain_more: "to_resolve s \<noteq> [] \<Longrightarrow> drain h pick s = drain h pick (drain_step h pick s)"
  by (subst drain.simps) simp

section \<open>The rules as lists of discoveries\<close>

lemma add_all_Nil: "add_all [] s = s"
  by (simp add: add_all_def)

lemma add_all_Cons: "add_all (n # ns) s = add_all ns (add_or_resolve (fst n) (snd n) s)"
  by (simp add: add_all_def)

lemma add_all_append: "add_all (xs @ ys) s = add_all ys (add_all xs s)"
  by (simp add: add_all_def)

lemma add_all_map_Pair: "add_all (map (Pair k) xs) s = fold (add_or_resolve k) xs s"
  by (simp add: add_all_def fold_map comp_def)

text \<open>Each rule makes exactly the discoveries listed by \<open>neighbours\<close>, in that order.\<close>

lemma resolve_add_all: "resolve h n s = add_all (neighbours h n) s"
proof (cases n)
  case (Pair k i)
  show ?thesis
    unfolding Pair
    by (cases k)
       (simp_all add: resolve_area_def resolve_automation_def resolve_config_entry_def
          resolve_device_def resolve_entity_def resolve_group_def resolve_scene_def
          resolve_script_def add_all_append add_all_map_Pair add_all_Nil add_all_Cons Let_def
          split: option.splits)
qed

section \<open>What one discovery changes\<close>

lemma visited_add_or_resolve:
  "visited (add_or_resolve k i s) = insert (k, i) (visited s)"
  by (auto simp: visited_def add_or_resolve_def Let_def split: if_splits)

lemma set_set_add: "set (set_add x xs) = insert x (set xs)"
  by (auto simp: set_add_def)

lemma distinct_set_add: "distinct xs \<Longrightarrow> distinct (set_add x xs)"
  by (simp add: set_add_def)

lemma to_resolve_add_or_resolve:
  "set (to_resolve (add_or_resolve k i s)) =
     set (to_resolve s) \<union> (if (k, i) \<notin> visited s \<and> k \<notin> DONT_RESOLVE then {(k, i)} else {})"
  by (simp add: visited_def add_or_resolve_def Let_def set_set_add)

lemma distinct_add_or_resolve:
  "distinct (to_resolve s) \<Longrightarrow> distinct (to_resolve (add_or_resolve k i s))"
  by (simp add: add_or_resolve_def Let_def distinct_set_add)

lemma visited_add_all: "visited (add_all ns s) = visited s \<union> set ns"
  by (induction ns arbitrary: s) (auto simp: add_all_Nil add_all_Cons visited_add_or_resolve)

lemma to_resolve_add_all:
  "set (to_resolve (add_all ns s)) =
     set (to_resolve s) \<union> {n \<in> set ns. n \<notin> visited s \<and> fst n \<notin> DONT_RESOLVE}"
proof (induction ns arbitrary: s)
  case Nil
  show ?case by (simp add: add_all_Nil)
next
  case (Cons n ns)
  show ?case
    by (cases n) (auto simp: add_all_Cons Cons.IH to_resolve_add_or_resolve visited_add_or_resolve
        split: if_splits)
qed

lemma distinct_add_all: "distinct (to_resolve s) \<Longrightarrow> distinct (to_resolve (add_all ns s))"
  by (induction ns arbitrary: s) (simp_all add: add_all_Nil add_all_Cons distinct_add_or_resolve)

section \<open>One turn of the loop\<close>

lemma set_remove_nth:
  assumes "distinct xs" "j < length xs"
  shows "set (take j xs @ drop (Suc j) xs) = set xs - {xs ! j}"
proof -
  have eq: "xs = take j xs @ xs ! j # drop (Suc j) xs"
    using assms(2) by (rule id_take_nth_drop)
  have "distinct (take j xs @ xs ! j # drop (Suc j) xs)"
    using assms(1) eq by simp
  then have notin: "xs ! j \<notin> set (take j xs) \<union> set (drop (Suc j) xs)"
    by auto
  have "set xs = set (take j xs) \<union> {xs ! j} \<union> set (drop (Suc j) xs)"
    by (subst eq) auto
  with notin show ?thesis by auto
qed

lemma distinct_remove_nth:
  assumes "distinct xs"
  shows "distinct (take j xs @ drop (Suc j) xs)"
proof (cases "j < length xs")
  case True
  then have eq: "xs = take j xs @ xs ! j # drop (Suc j) xs"
    by (rule id_take_nth_drop)
  have "distinct (take j xs @ xs ! j # drop (Suc j) xs)"
    using assms eq by simp
  then show ?thesis by auto
next
  case False
  then show ?thesis using assms by simp
qed

lemma drain_step_empty: "to_resolve s = [] \<Longrightarrow> drain_step h pick s = s"
  by (simp add: drain_step_def)

text \<open>The turn in terms of sets: some pending pair is popped and its discoveries are added.\<close>

lemma drain_step_sets:
  assumes ne: "to_resolve s \<noteq> []" and dist: "distinct (to_resolve s)"
  obtains n where "n \<in> set (to_resolve s)"
    and "visited (drain_step h pick s) = visited s \<union> set (neighbours h n)"
    and "set (to_resolve (drain_step h pick s)) =
           (set (to_resolve s) - {n})
           \<union> {m \<in> set (neighbours h n). m \<notin> visited s \<and> fst m \<notin> DONT_RESOLVE}"
    and "distinct (to_resolve (drain_step h pick s))"
proof -
  let ?wl = "to_resolve s"
  let ?j = "pick ?wl mod length ?wl"
  let ?n = "?wl ! ?j"
  have j: "?j < length ?wl" using ne by simp
  have 1: "?n \<in> set ?wl" using j by (rule nth_mem)
  let ?s0 = "s\<lparr>to_resolve := take ?j ?wl @ drop (Suc ?j) ?wl\<rparr>"
  have step: "drain_step h pick s = add_all (neighbours h ?n) ?s0"
    using ne by (simp add: drain_step_def Let_def resolve_add_all)
  have v0: "visited ?s0 = visited s" by (simp add: visited_def)
  have 2: "visited (drain_step h pick s) = visited s \<union> set (neighbours h ?n)"
    by (simp add: step visited_add_all v0)
  have "set (to_resolve ?s0) = set ?wl - {?n}"
    using set_remove_nth[OF dist j] by simp
  then have 3: "set (to_resolve (drain_step h pick s)) =
           (set (to_resolve s) - {?n})
           \<union> {m \<in> set (neighbours h ?n). m \<notin> visited s \<and> fst m \<notin> DONT_RESOLVE}"
    by (simp add: step to_resolve_add_all v0)
  have "distinct (to_resolve ?s0)"
    using distinct_remove_nth[OF dist] by simp
  then have 4: "distinct (to_resolve (drain_step h pick s))"
    unfolding step by (rule distinct_add_all)
  from 1 2 3 4 show thesis by (rule that)
qed

section \<open>The loop invariant\<close>

lemma visited_seed: "visited (seed new_searcher k i) = {(k, i)}"
  by (auto simp: visited_def seed_def new_searcher_def split: if_splits)

lemma to_resolve_seed: "to_resolve (seed new_searcher k i) = [(k, i)]"
  by (simp add: seed_def new_searcher_def set_add_def)

lemma search_inv_seed: "search_inv h (k, i) (seed new_searcher k i)"
  by (simp add: search_inv_def visited_seed to_resolve_seed expanded_def related.entry)

lemma search_inv_step:
  assumes inv: "search_inv h entry s"
  shows "search_inv h entry (drain_step h pick s)"
proof (cases "to_resolve s = []")
  case True
  then show ?thesis using inv by (simp add: drain_step_empty)
next
  case False
  let ?s' = "drain_step h pick s"
  from inv have dist: "distinct (to_resolve s)" by (simp add: search_inv_def)
  from False dist obtain n where n_wl: "n \<in> set (to_resolve s)"
    and vis: "visited ?s' = visited s \<union> set (neighbours h n)"
    and wl: "set (to_resolve ?s') = (set (to_resolve s) - {n})
      \<union> {m \<in> set (neighbours h n). m \<notin> visited s \<and> fst m \<notin> DONT_RESOLVE}"
    and dist': "distinct (to_resolve ?s')"
    by (rule drain_step_sets)
  from inv have e_in: "entry \<in> visited s"
    and sub: "visited s \<subseteq> related h entry"
    and fin: "finite (visited s)"
    and wl_vis: "set (to_resolve s) \<subseteq> visited s"
    and wl_exp: "\<forall>n \<in> set (to_resolve s). expanded entry n"
    and closed: "\<forall>n \<in> visited s. expanded entry n \<longrightarrow> n \<notin> set (to_resolve s)
            \<longrightarrow> set (neighbours h n) \<subseteq> visited s"
    by (simp_all add: search_inv_def)
  have n_rel: "n \<in> related h entry" using n_wl wl_vis sub by blast
  have n_exp: "expanded entry n" using n_wl wl_exp by blast
  have nb_rel: "set (neighbours h n) \<subseteq> related h entry"
    using n_rel n_exp by (auto intro: related.step)
  have 1: "entry \<in> visited ?s'" using e_in vis by simp
  have 2: "visited ?s' \<subseteq> related h entry" using sub nb_rel vis by simp
  have 3: "finite (visited ?s')" using fin vis by simp
  have 4: "set (to_resolve ?s') \<subseteq> visited ?s'" using wl vis wl_vis by auto
  have 5: "distinct (to_resolve ?s')" by (rule dist')
  have 6: "\<forall>m \<in> set (to_resolve ?s'). expanded entry m"
    using wl wl_exp by (auto simp: expanded_def)
  have 7: "\<forall>m \<in> visited ?s'. expanded entry m \<longrightarrow> m \<notin> set (to_resolve ?s')
            \<longrightarrow> set (neighbours h m) \<subseteq> visited ?s'"
  proof (intro ballI impI)
    fix m assume m: "m \<in> visited ?s'" and ex: "expanded entry m"
      and nwl: "m \<notin> set (to_resolve ?s')"
    show "set (neighbours h m) \<subseteq> visited ?s'"
    proof (cases "m = n")
      case True
      then show ?thesis using vis by simp
    next
      case mn: False
      show ?thesis
      proof (cases "m \<in> visited s")
        case True
        from nwl wl mn have "m \<notin> set (to_resolve s)" by auto
        with closed True ex have "set (neighbours h m) \<subseteq> visited s" by blast
        then show ?thesis using vis by auto
      next
        case new: False
        with m vis have m_nb: "m \<in> set (neighbours h n)" by auto
        from new e_in have "m \<noteq> entry" by auto
        with ex have "fst m \<notin> DONT_RESOLVE" by (simp add: expanded_def)
        with m_nb new wl have "m \<in> set (to_resolve ?s')" by auto
        with nwl show ?thesis by contradiction
      qed
    qed
  qed
  show ?thesis
    unfolding search_inv_def using 1 2 3 4 5 6 7 by blast
qed

text \<open>Progress: the popped pair joins the pairs that are recorded and no longer pending.\<close>

lemma drain_step_progress:
  assumes inv: "search_inv h entry s" and ne: "to_resolve s \<noteq> []"
  shows "visited s - set (to_resolve s)
           \<subset> visited (drain_step h pick s) - set (to_resolve (drain_step h pick s))"
proof -
  let ?s' = "drain_step h pick s"
  from inv have dist: "distinct (to_resolve s)" and wl_vis: "set (to_resolve s) \<subseteq> visited s"
    by (simp_all add: search_inv_def)
  from ne dist obtain n where n_wl: "n \<in> set (to_resolve s)"
    and vis: "visited ?s' = visited s \<union> set (neighbours h n)"
    and wl: "set (to_resolve ?s') = (set (to_resolve s) - {n})
      \<union> {m \<in> set (neighbours h n). m \<notin> visited s \<and> fst m \<notin> DONT_RESOLVE}"
    by (rule drain_step_sets)
  have "n \<in> visited ?s' - set (to_resolve ?s')"
    using n_wl wl_vis unfolding vis wl by auto
  moreover have "n \<notin> visited s - set (to_resolve s)" using n_wl by simp
  moreover have "visited s - set (to_resolve s) \<subseteq> visited ?s' - set (to_resolve ?s')"
    unfolding vis wl by auto
  ultimately show ?thesis by blast
qed

lemma search_inv_final:
  assumes inv: "search_inv h entry s" and emp: "to_resolve s = []"
  shows "visited s = related h entry"
proof
  show "visited s \<subseteq> related h entry" using inv by (simp add: search_inv_def)
  show "related h entry \<subseteq> visited s"
  proof
    fix n assume "n \<in> related h entry"
    then show "n \<in> visited s"
    proof (induction rule: related.induct)
      case entry
      show ?case using inv by (simp add: search_inv_def)
    next
      case (step n m)
      from inv emp step.IH step.hyps(2) have "set (neighbours h n) \<subseteq> visited s"
        by (simp add: search_inv_def)
      with step.hyps(3) show ?case by blast
    qed
  qed
qed

section \<open>The loop ends exactly when finitely many pairs are related\<close>

text \<open>Total correctness of the loop when finitely many pairs are related to the entry.\<close>

lemma drain_total:
  assumes fin: "finite (related h entry)"
  shows "search_inv h entry s
    \<Longrightarrow> \<exists>s'. drain h pick s = Some s' \<and> search_inv h entry s' \<and> to_resolve s' = []"
proof (induction "card (related h entry - (visited s - set (to_resolve s)))" arbitrary: s
    rule: less_induct)
  case less
  show ?case
  proof (cases "to_resolve s = []")
    case True
    then show ?thesis using less.prems by (simp add: drain_done)
  next
    case False
    let ?s' = "drain_step h pick s"
    have inv': "search_inv h entry ?s'" using less.prems by (rule search_inv_step)
    have prog: "visited s - set (to_resolve s) \<subset> visited ?s' - set (to_resolve ?s')"
      using less.prems False by (rule drain_step_progress)
    have "visited ?s' \<subseteq> related h entry" using inv' by (simp add: search_inv_def)
    with prog have "related h entry - (visited ?s' - set (to_resolve ?s'))
        \<subset> related h entry - (visited s - set (to_resolve s))"
      by blast
    with fin have "card (related h entry - (visited ?s' - set (to_resolve ?s')))
        < card (related h entry - (visited s - set (to_resolve s)))"
      by (intro psubset_card_mono) auto
    from less.hyps[OF this inv'] show ?thesis
      using False by (simp add: drain_more)
  qed
qed

text \<open>Partial correctness: whenever the loop ends, the invariant holds at the end.\<close>

lemma drain_partial:
  assumes run: "drain h pick s = Some s'" and inv: "search_inv h entry s"
  shows "search_inv h entry s' \<and> to_resolve s' = []"
proof -
  have "search_inv h entry s \<longrightarrow> search_inv h entry s' \<and> to_resolve s' = []"
  proof (rule drain.raw_induct[where P = "\<lambda>h pick s s'.
      search_inv h entry s \<longrightarrow> search_inv h entry s' \<and> to_resolve s' = []", OF _ run])
    fix d :: "hass \<Rightarrow> (node list \<Rightarrow> nat) \<Rightarrow> searcher \<Rightarrow> searcher option"
    fix h pick s s'
    assume IH: "\<And>h pick s s'. d h pick s = Some s' \<Longrightarrow>
        search_inv h entry s \<longrightarrow> search_inv h entry s' \<and> to_resolve s' = []"
      and eq: "(if to_resolve s = [] then Some s else d h pick (drain_step h pick s)) = Some s'"
    show "search_inv h entry s \<longrightarrow> search_inv h entry s' \<and> to_resolve s' = []"
    proof (cases "to_resolve s = []")
      case True
      with eq show ?thesis by auto
    next
      case False
      with eq have "d h pick (drain_step h pick s) = Some s'" by simp
      from IH[OF this] show ?thesis by (auto intro: search_inv_step)
    qed
  qed
  with inv show ?thesis by blast
qed

section \<open>What a search returns\<close>

lemma results_final:
  assumes "search_inv h entry s" and "to_resolve s = []"
  shows "results s = related_ids h entry"
proof -
  have "visited s = related h entry" using assms by (rule search_inv_final)
  then show ?thesis
    by (auto simp: visited_def related_ids_def fun_eq_iff set_eq_iff)
qed

lemma drain_seed_finite:
  assumes "finite (related h (k, i))"
  shows "\<exists>s'. drain h pick (seed new_searcher k i) = Some s' \<and> results s' = related_ids h (k, i)"
proof -
  from drain_total[OF assms search_inv_seed]
  obtain s' where "drain h pick (seed new_searcher k i) = Some s'"
    and "search_inv h (k, i) s'" and "to_resolve s' = []" by blast
  then show ?thesis using results_final by blast
qed

lemma drain_seed_infinite:
  assumes "infinite (related h (k, i))"
  shows "drain h pick (seed new_searcher k i) = None"
proof (rule ccontr)
  assume "drain h pick (seed new_searcher k i) \<noteq> None"
  then obtain s' where "drain h pick (seed new_searcher k i) = Some s'" by auto
  from drain_partial[OF this search_inv_seed]
  have inv: "search_inv h (k, i) s'" and emp: "to_resolve s' = []" by simp_all
  have "visited s' = related h (k, i)" using inv emp by (rule search_inv_final)
  moreover have "finite (visited s')" using inv by (simp add: search_inv_def)
  ultimately show False using assms by simp
qed

text \<open>The outcome of a search in terms of the related pairs alone; the order of popping does not occur.\<close>

lemma search_char:
  "search h pick k i =
     (if finite (related h (k, i)) then Some (finish k i (related_ids h (k, i))) else None)"
proof (cases "finite (related h (k, i))")
  case True
  from drain_seed_finite[OF True, of pick] show ?thesis
    using True by (auto simp: search_def async_search_def)
next
  case False
  from drain_seed_infinite[OF False, of pick] show ?thesis
    using False by (simp add: search_def async_search_def)
qed

section \<open>Finite object graphs\<close>

lemma UNIV_kind: "(UNIV :: kind set) = {Area, Automation, Config_entry, Device, Entity, Group, Scene, Script}"
  by (auto intro: kind.exhaust)

lemma finite_UNIV_kind: "finite (UNIV :: kind set)"
  by (simp add: UNIV_kind)

lemma graph_idsI:
  "y \<in> set (async_entries_for_area h x) \<Longrightarrow> y \<in> graph_ids h"
  "device_async_get h x = Some e \<Longrightarrow> area_id e = Some y \<Longrightarrow> y \<in> graph_ids h"
  "device_async_get h x = Some e \<Longrightarrow> y \<in> set (config_entries e) \<Longrightarrow> y \<in> graph_ids h"
  "y \<in> set (async_entries_for_device h x) \<Longrightarrow> y \<in> graph_ids h"
  "y \<in> set (scenes_with_entity h x) \<Longrightarrow> y \<in> graph_ids h"
  "y \<in> set (groups_with_entity h x) \<Longrightarrow> y \<in> graph_ids h"
  "entity_async_get h x = Some en \<Longrightarrow> device_id en = Some y \<Longrightarrow> y \<in> graph_ids h"
  "entity_async_get h x = Some en \<Longrightarrow> config_entry_id en = Some y \<Longrightarrow> y \<in> graph_ids h"
  "y \<in> set (get_entity_ids h x) \<Longrightarrow> y \<in> graph_ids h"
  "y \<in> set (entities_in_scene h x) \<Longrightarrow> y \<in> graph_ids h"
  "y \<in> set (device_entries_for_config_entry h x) \<Longrightarrow> y \<in> graph_ids h"
  "y \<in> set (entity_entries_for_config_entry h x) \<Longrightarrow> y \<in> graph_ids h"
  unfolding graph_ids_def by blast+

lemma graph_idsI_sym:
  "Some e = device_async_get h x \<Longrightarrow> Some y = area_id e \<Longrightarrow> y \<in> graph_ids h"
  "Some e = device_async_get h x \<Longrightarrow> y \<in> set (config_entries e) \<Longrightarrow> y \<in> graph_ids h"
  "Some en = entity_async_get h x \<Longrightarrow> Some y = device_id en \<Longrightarrow> y \<in> graph_ids h"
  "Some en = entity_async_get h x \<Longrightarrow> Some y = config_entry_id en \<Longrightarrow> y \<in> graph_ids h"
  by (rule graph_idsI(2)[OF sym sym], assumption+)
     (rule graph_idsI(3)[OF sym], assumption+,
      rule graph_idsI(7)[OF sym sym], assumption+,
      rule graph_idsI(8)[OF sym sym], assumption+)

lemma neighbours_ids:
  assumes "m \<in> set (neighbours h (k, x))"
  shows "snd m = x \<or> snd m \<in> graph_ids h"
proof (cases k)
  case Area
  with assms show ?thesis by (auto intro: graph_idsI)
next
  case Automation
  with assms show ?thesis by simp
next
  case Config_entry
  with assms show ?thesis by (auto intro: graph_idsI)
next
  case Device
  with assms show ?thesis
    by (auto split: option.splits if_splits intro: graph_idsI graph_idsI_sym)
next
  case Entity
  with assms show ?thesis
    by (auto split: option.splits if_splits intro: graph_idsI graph_idsI_sym)
next
  case Group
  with assms show ?thesis by (auto intro: graph_idsI)
next
  case Scene
  with assms show ?thesis by (auto intro: graph_idsI)
next
  case Script
  with assms show ?thesis by simp
qed

lemma related_ids_bound: "n \<in> related h (k, i) \<Longrightarrow> snd n \<in> insert i (graph_ids h)"
proof (induction rule: related.induct)
  case entry
  show ?case by simp
next
  case (step n m)
  from neighbours_ids[of m h "fst n" "snd n"] step.hyps(3) step.IH show ?case by auto
qed

lemma finite_related: "finite_graph h \<Longrightarrow> finite (related h (k, i))"
proof -
  assume "finite_graph h"
  then have "finite (UNIV \<times> insert i (graph_ids h) :: node set)"
    by (simp add: finite_graph_def finite_UNIV_kind)
  moreover have "related h (k, i) \<subseteq> UNIV \<times> insert i (graph_ids h)"
  proof
    fix n assume "n \<in> related h (k, i)"
    then have "snd n \<in> insert i (graph_ids h)" by (rule related_ids_bound)
    then show "n \<in> UNIV \<times> insert i (graph_ids h)" by (simp add: mem_Times_iff)
  qed
  ultimately show ?thesis by (rule rev_finite_subset)
qed

lemma finite_graph_empty: "finite_graph empty_hass"
  by (simp add: finite_graph_def graph_ids_def empty_hass_def)

lemma graph_ids_demo:
  "graph_ids demo_hass \<subseteq> set [''a1'', ''d1'', ''c1'', ''light.a'', ''light.b'', ''light.c'', ''script.foo'', ''scene.s'']"
  unfolding graph_ids_def demo_hass_def
  by (auto split: if_splits)

lemma finite_graph_demo: "finite_graph demo_hass"
  unfolding finite_graph_def using graph_ids_demo by (rule finite_subset) simp

section \<open>Concrete searches\<close>

lemmas eval_defs = search_def async_search_def seed_def new_searcher_def set_add_def
  drain_more drain_done drain_step_def pop_first_def
  resolve_area_def resolve_automation_def resolve_config_entry_def
  resolve_device_def resolve_entity_def resolve_group_def resolve_scene_def
  resolve_script_def add_or_resolve_def DONT_RESOLVE_def split_entity_id_def domain_kind_def
  finish_def clean_up_def Let_def

lemma demo_scene_first:
  "search demo_hass pop_first Scene ''scene.s'' = Some (Inr demo_scene_result)"
  apply (simp add: eval_defs demo_hass_def)
  apply (rule ext)
  apply (simp add: demo_scene_result_def)
  apply auto
  done

lemma demo_light_first:
  "search demo_hass pop_first Entity ''light.a'' = Some (Inr demo_light_result)"
  apply (simp add: eval_defs demo_hass_def)
  apply (rule ext)
  apply (simp add: demo_light_result_def)
  apply auto
  done

section \<open>Clean-up and removal of the entry point\<close>

lemma clean_up_apply:
  "clean_up r k =
     (if k = Entity then r Entity - (r Script \<union> r Scene \<union> r Automation \<union> r Group) else r k)"
  by (auto simp: clean_up_def Let_def)

lemma finish_KeyError: "i \<notin> clean_up r k \<Longrightarrow> finish k i r = Inl KeyError"
  by (simp add: finish_def Let_def)

lemma finish_Inr:
  "finish k i r = Inr m \<Longrightarrow>
     i \<in> clean_up r k \<and> (\<forall>key. bucket m key = clean_up r key - (if key = k then {i} else {}))"
  by (auto simp: finish_def Let_def bucket_def split: if_splits)

lemma finish_returns: "i \<in> clean_up r k \<Longrightarrow> \<exists>m. finish k i r = Inr m"
  by (simp add: finish_def Let_def)

section \<open>The states of a run\<close>

lemma run_0: "run h pick k i 0 = seed new_searcher k i"
  by (simp add: run_def)

lemma run_Suc: "run h pick k i (Suc t) = drain_step h pick (run h pick k i t)"
  by (simp add: run_def)

lemma search_inv_run: "search_inv h (k, i) (run h pick k i t)"
  by (induction t) (simp_all add: run_0 run_Suc search_inv_seed search_inv_step)

lemma visited_drain_step: "visited s \<subseteq> visited (drain_step h pick s)"
  by (auto simp: drain_step_def Let_def resolve_add_all visited_add_all)
     (simp add: visited_def)

lemma visited_run_mono: "t \<le> t' \<Longrightarrow> visited (run h pick k i t) \<subseteq> visited (run h pick k i t')"
proof (induction t' rule: nat_induct_at_least [consumes 1])
  case base
  show ?case by simp
next
  case (Suc n)
  with visited_drain_step[of "run h pick k i n" h pick] show ?case
    by (auto simp: run_Suc)
qed

lemma done_drain_step:
  assumes "search_inv h entry s"
  shows "visited s - set (to_resolve s)
           \<subseteq> visited (drain_step h pick s) - set (to_resolve (drain_step h pick s))"
proof (cases "to_resolve s = []")
  case True
  then show ?thesis by (simp add: drain_step_empty)
next
  case False
  with assms show ?thesis using drain_step_progress by blast
qed

lemma done_run_mono:
  "t \<le> t' \<Longrightarrow> visited (run h pick k i t) - set (to_resolve (run h pick k i t))
     \<subseteq> visited (run h pick k i t') - set (to_resolve (run h pick k i t'))"
proof (induction t' rule: nat_induct_at_least [consumes 1])
  case base
  show ?case by simp
next
  case (Suc n)
  from done_drain_step[OF search_inv_run[of h k i pick n], of pick] Suc.IH show ?case
    unfolding run_Suc by blast
qed

lemma drain_Some_iter:
  assumes "drain h pick s = Some s'"
  shows "\<exists>T. s' = (drain_step h pick ^^ T) s \<and> to_resolve s' = []"
proof (rule drain.raw_induct[where P = "\<lambda>h pick s s'.
      \<exists>T. s' = (drain_step h pick ^^ T) s \<and> to_resolve s' = []", OF _ assms])
  fix d :: "hass \<Rightarrow> (node list \<Rightarrow> nat) \<Rightarrow> searcher \<Rightarrow> searcher option"
  fix h pick s s'
  assume IH: "\<And>h pick s s'. d h pick s = Some s' \<Longrightarrow>
        \<exists>T. s' = (drain_step h pick ^^ T) s \<and> to_resolve s' = []"
    and eq: "(if to_resolve s = [] then Some s else d h pick (drain_step h pick s)) = Some s'"
  show "\<exists>T. s' = (drain_step h pick ^^ T) s \<and> to_resolve s' = []"
  proof (cases "to_resolve s = []")
    case True
    with eq have "s' = (drain_step h pick ^^ 0) s \<and> to_resolve s' = []" by auto
    then show ?thesis by blast
  next
    case False
    with eq have "d h pick (drain_step h pick s) = Some s'" by simp
    from IH[OF this] obtain T where
      "s' = (drain_step h pick ^^ T) (drain_step h pick s)" "to_resolve s' = []" by blast
    then have "s' = (drain_step h pick ^^ Suc T) s \<and> to_resolve s' = []"
      by (simp add: funpow_swap1)
    then show ?thesis by blast
  qed
qed

lemma run_stays_empty:
  "T \<le> t \<Longrightarrow> to_resolve (run h pick k i T) = [] \<Longrightarrow> run h pick k i t = run h pick k i T"
proof (induction t rule: nat_induct_at_least [consumes 1])
  case base
  show ?case by simp
next
  case (Suc n)
  then show ?case by (simp add: run_Suc drain_step_empty)
qed

section \<open>Pending pairs\<close>

lemma pending_recorded_visited: "pending_recorded s = (set (to_resolve s) \<subseteq> visited s)"
  by (auto simp: pending_recorded_def visited_def)

lemma pending_recorded_add_or_resolve:
  "pending_recorded s \<Longrightarrow> pending_recorded (add_or_resolve k i s)"
  unfolding pending_recorded_visited
  by (auto simp: to_resolve_add_or_resolve visited_add_or_resolve split: if_splits)

lemma pending_recorded_run: "pending_recorded (run h pick k i t)"
  using search_inv_run[of h k i pick t]
  by (simp add: pending_recorded_visited search_inv_def)

lemma drain_light_c:
  "drain demo_hass pop_first (seed new_searcher Entity ''light.c'') = Some light_c_final"
  apply (simp add: eval_defs demo_hass_def light_c_final_def)
  apply (rule ext)
  apply auto
  done

section \<open>Namespaces and the specific kinds\<close>

lemma domain_kind_Some:
  "domain_kind d = Some k \<Longrightarrow> k \<in> {Scene, Automation, Script, Group}"
  by (auto simp: domain_kind_def split: if_splits)

lemma domain_kind_name: "domain_kind d = Some k \<Longrightarrow> kind_name k = d"
  by (auto simp: domain_kind_def split: if_splits)

lemma domain_kind_DONT_RESOLVE: "domain_kind d = Some k \<Longrightarrow> k \<in> DONT_RESOLVE"
  by (auto simp: domain_kind_def DONT_RESOLVE_def split: if_splits)

lemma neighbours_special:
  assumes "(k', x) \<in> set (neighbours h n)" and "k' \<in> {Scene, Script, Automation, Group}"
  shows "domain_kind (split_entity_id x) = Some k'"
proof (cases n)
  case (Pair k i)
  show ?thesis
    using assms unfolding Pair
    by (cases k) (auto split: option.splits if_splits)
qed

lemma related_special:
  assumes "n \<in> related h entry" and "fst n \<in> {Scene, Script, Automation, Group}"
  shows "n = entry \<or> domain_kind (split_entity_id (snd n)) = Some (fst n)"
  using assms
proof (induction rule: related.induct)
  case entry
  show ?case by simp
next
  case (step n m)
  from neighbours_special[of "fst m" "snd m" h n] step.hyps(3) step.prems
  show ?case by simp
qed

lemma related_entry_neighbours: "m \<in> set (neighbours h entry) \<Longrightarrow> m \<in> related h entry"
  by (rule related.step[OF related.entry]) (simp_all add: expanded_def)

lemma related_cong:
  assumes "\<And>n. expanded entry n \<Longrightarrow> neighbours h' n = neighbours h n"
  shows "related h' entry = related h entry"
proof (intro equalityI subsetI)
  fix n assume "n \<in> related h' entry"
  then show "n \<in> related h entry"
    by (induction rule: related.induct) (auto intro: related.intros simp: assms)
next
  fix n assume "n \<in> related h entry"
  then show "n \<in> related h' entry"
    by (induction rule: related.induct) (auto intro: related.intros simp: assms[symmetric])
qed

lemma neighbours_scene_contents:
  "fst n \<noteq> Scene \<Longrightarrow> neighbours (h\<lparr>entities_in_scene := f\<rparr>) n = neighbours h n"
  by (cases n; cases "fst n") simp_all

text \<open>Unless the entry is a scene, the stored contents of scenes are never read.\<close>

lemma search_scene_contents:
  "search (h\<lparr>entities_in_scene := f\<rparr>) pick Entity e = search h pick Entity e"
proof -
  have "related (h\<lparr>entities_in_scene := f\<rparr>) (Entity, e) = related h (Entity, e)"
    by (rule related_cong, rule neighbours_scene_contents)
       (auto simp: expanded_def DONT_RESOLVE_def)
  moreover from this
  have "related_ids (h\<lparr>entities_in_scene := f\<rparr>) (Entity, e) = related_ids h (Entity, e)"
    by (simp add: fun_eq_iff related_ids_def)
  ultimately show ?thesis by (simp add: search_char)
qed

lemma found_search:
  assumes fin: "finite_graph h"
    and entry: "i \<in> clean_up (related_ids h (k, i)) k"
    and x: "x \<in> clean_up (related_ids h (k, i)) kk" "(kk, x) \<noteq> (k, i)"
  shows "found (search h pick k i) kk x"
proof -
  from finish_returns[OF entry] obtain m where m: "finish k i (related_ids h (k, i)) = Inr m"
    by blast
  from finish_Inr[OF m] x have "x \<in> bucket m kk" by auto
  then show ?thesis
    using fin m by (simp add: found_def search_char finite_related)
qed

lemma not_related_special:
  assumes "domain_kind (split_entity_id x) = None" and "k' \<in> {Scene, Script, Automation, Group}"
    and "(k', x) \<noteq> entry"
  shows "x \<notin> related_ids h entry k'"
  using related_special[of "(k', x)" h entry] assms by (auto simp: related_ids_def)

lemma resolve_entity_add_all: "resolve_entity h e s = add_all (neighbours h (Entity, e)) s"
  using resolve_add_all[of h "(Entity, e)" s] by simp

text \<open>Any order of popping may be replaced by popping the first pending pair.\<close>

lemma search_pop_first: "search h pick k i = search h pop_first k i"
  by (simp add: search_char)

text \<open>What is found was recorded, and survived the clean-up and the removal of the entry.\<close>

lemma found_clean_up:
  assumes "found (search h pick k i) kk x"
  shows "x \<in> clean_up (related_ids h (k, i)) kk \<and> (kk, x) \<noteq> (k, i)"
proof -
  from assms obtain m where m: "search h pick k i = Some (Inr m)" and x: "x \<in> bucket m kk"
    by (auto simp: found_def split: option.splits sum.splits)
  from m have "finish k i (related_ids h (k, i)) = Inr m"
    by (simp add: search_char split: if_splits)
  from finish_Inr[OF this] x show ?thesis by auto
qed

text \<open>The search from \<open>light.a\<close> on \<open>demo_hass\<close> with the contents of the scenes taken away.\<close>

lemma demo_light_no_scenes:
  "search (demo_hass\<lparr>entities_in_scene := entities_in_scene empty_hass\<rparr>) pop_first
     Entity ''light.a'' = Some (Inr demo_light_result)"
  apply (simp add: eval_defs demo_hass_def empty_hass_def)
  apply (rule ext)
  apply (simp add: demo_light_result_def)
  apply auto
  done

section \<open>Ids that do not resolve\<close>

lemma dangling_neighbours:
  "dangling h k i \<Longrightarrow>
     neighbours h (k, i) =
       (if k = Entity then (case domain_kind (split_entity_id i) of None \<Rightarrow> [] | Some k' \<Rightarrow> [(k', i)])
        else [])"
  by (cases k) simp_all

lemma dangling_related:
  assumes "dangling h k i"
  shows "related h (k, i) = insert (k, i) (set (neighbours h (k, i)))"
proof (intro equalityI subsetI)
  fix n assume "n \<in> related h (k, i)"
  then show "n \<in> insert (k, i) (set (neighbours h (k, i)))"
  proof (induction rule: related.induct)
    case entry
    show ?case by simp
  next
    case (step n m)
    from step.IH show ?case
    proof
      assume "n = (k, i)"
      with step.hyps(3) show ?thesis by simp
    next
      assume "n \<in> set (neighbours h (k, i))"
      then have "fst n \<in> DONT_RESOLVE"
        unfolding dangling_neighbours[OF assms]
        by (cases "k = Entity"; cases "domain_kind (split_entity_id i)")
           (auto dest: domain_kind_DONT_RESOLVE)
      with step.hyps(2) have "n = (k, i)" by (simp add: expanded_def)
      with step.hyps(3) show ?thesis by simp
    qed
  qed
next
  fix n assume "n \<in> insert (k, i) (set (neighbours h (k, i)))"
  then show "n \<in> related h (k, i)"
    by (auto intro: related.entry related_entry_neighbours)
qed

section \<open>Properties of the search\<close>

subsection \<open>Terminal kinds are expanded only as the entry point\<close>

text \<open>
  C1, as amended. On a finite object graph, let scene \<open>S\<close> store entity \<open>E\<close>. A search with
  entry \<open>(scene, S)\<close> returns \<open>E\<close> under \<open>entity\<close> exactly when \<open>E\<close> is not \<open>S\<close> itself and
  the id of \<open>E\<close> is outside the scene, automation, script and group namespaces; an \<open>E\<close>
  inside one of these namespaces is returned under that specific kind instead (unless that
  pair is the entry point itself). Let \<open>scenes_with_entity\<close> report \<open>S\<close> for an entity \<open>E0\<close>
  whose id is outside the four namespaces. A search with entry \<open>(entity, E0)\<close> returns \<open>S\<close>
  under \<open>scene\<close> exactly when the id of \<open>S\<close> is in the scene namespace. What the scenes
  store has no influence on a search from an entity, because a scene that is not the
  entry point is never expanded: the outcome is the same whatever \<open>entities_in_scene\<close>
  answers. So an \<open>E\<close> that is unrelated to \<open>E0\<close> but for the contents of scenes (the search
  from \<open>E0\<close> does not return it when the scenes store something else, for instance
  nothing) is nowhere in the result.
\<close>

theorem terminal_kinds_only_expanded_as_entry:
  "(finite_graph h \<and> E \<in> set (entities_in_scene h S) \<longrightarrow>
      (found (search h pick Scene S) Entity E
         \<longleftrightarrow> E \<noteq> S \<and> domain_kind (split_entity_id E) = None)
      \<and> (domain_kind (split_entity_id E) = Some k \<and> (k, E) \<noteq> (Scene, S)
           \<longrightarrow> found (search h pick Scene S) k E))
   \<and> (finite_graph h \<and> S \<in> set (scenes_with_entity h E0)
        \<and> domain_kind (split_entity_id E0) = None \<longrightarrow>
      (found (search h pick Entity E0) Scene S
         \<longleftrightarrow> domain_kind (split_entity_id S) = Some Scene))
   \<and> search (h\<lparr>entities_in_scene := f\<rparr>) pick Entity E0 = search h pick Entity E0
   \<and> ((\<forall>k'. \<not> found (search (h\<lparr>entities_in_scene := f\<rparr>) pick Entity E0) k' E)
        \<longrightarrow> \<not> found (search h pick Entity E0) kk E)"
proof (intro conjI impI; (elim conjE)?)
  let ?R = "related_ids h (Scene, S)"
  have entry: "S \<in> clean_up ?R Scene"
    by (simp add: clean_up_apply related_ids_def related.entry)
  {
    assume fin: "finite_graph h" and E: "E \<in> set (entities_in_scene h S)"
    have ent: "(Entity, E) \<in> related h (Scene, S)"
      using E by (intro related_entry_neighbours) simp
    show "found (search h pick Scene S) Entity E
         \<longleftrightarrow> E \<noteq> S \<and> domain_kind (split_entity_id E) = None"
    proof
      assume f: "found (search h pick Scene S) Entity E"
      from found_clean_up[OF f] have c: "E \<in> clean_up ?R Entity" by simp
      have "E \<noteq> S"
      proof
        assume "E = S"
        then have "E \<in> ?R Scene" by (simp add: related_ids_def related.entry)
        with c show False by (simp add: clean_up_apply)
      qed
      moreover have "domain_kind (split_entity_id E) = None"
      proof (rule ccontr)
        assume "domain_kind (split_entity_id E) \<noteq> None"
        then obtain k' where k': "domain_kind (split_entity_id E) = Some k'" by auto
        have "(k', E) \<in> related h (Scene, S)"
          by (rule related.step[OF ent]) (simp_all add: expanded_def DONT_RESOLVE_def k')
        then have "E \<in> ?R k'" by (simp add: related_ids_def)
        moreover have "k' \<in> {Scene, Automation, Script, Group}"
          using k' by (rule domain_kind_Some)
        ultimately show False using c by (auto simp: clean_up_apply)
      qed
      ultimately show "E \<noteq> S \<and> domain_kind (split_entity_id E) = None" by simp
    next
      assume a: "E \<noteq> S \<and> domain_kind (split_entity_id E) = None"
      have "E \<in> ?R Entity" using ent by (simp add: related_ids_def)
      moreover have "E \<notin> ?R k'" if "k' \<in> {Scene, Script, Automation, Group}" for k'
        using a that by (intro not_related_special) auto
      ultimately have "E \<in> clean_up ?R Entity" by (simp add: clean_up_apply)
      with fin entry show "found (search h pick Scene S) Entity E"
        by (rule found_search) simp
    qed
  }
  {
    assume fin: "finite_graph h" and E: "E \<in> set (entities_in_scene h S)"
      and k: "domain_kind (split_entity_id E) = Some k" and ne: "(k, E) \<noteq> (Scene, S)"
    have ent: "(Entity, E) \<in> related h (Scene, S)"
      using E by (intro related_entry_neighbours) simp
    have "(k, E) \<in> related h (Scene, S)"
      by (rule related.step[OF ent]) (simp_all add: expanded_def DONT_RESOLVE_def k)
    moreover have "k \<in> {Scene, Automation, Script, Group}" using k by (rule domain_kind_Some)
    ultimately have "E \<in> clean_up ?R k" by (auto simp: clean_up_apply related_ids_def)
    with fin entry show "found (search h pick Scene S) k E"
      using ne by (rule found_search)
  }
  {
    assume fin: "finite_graph h" and S: "S \<in> set (scenes_with_entity h E0)"
      and E0: "domain_kind (split_entity_id E0) = None"
    let ?Q = "related_ids h (Entity, E0)"
    show "found (search h pick Entity E0) Scene S
         \<longleftrightarrow> domain_kind (split_entity_id S) = Some Scene"
    proof
      assume "found (search h pick Entity E0) Scene S"
      from found_clean_up[OF this] have "(Scene, S) \<in> related h (Entity, E0)"
        by (simp add: clean_up_apply related_ids_def)
      from related_special[OF this] show "domain_kind (split_entity_id S) = Some Scene"
        by simp
    next
      assume d: "domain_kind (split_entity_id S) = Some Scene"
      have ent: "(Entity, S) \<in> related h (Entity, E0)"
        using S by (intro related_entry_neighbours) simp
      have "(Scene, S) \<in> related h (Entity, E0)"
        by (rule related.step[OF ent]) (simp_all add: expanded_def DONT_RESOLVE_def d)
      then have 1: "S \<in> clean_up ?Q Scene" by (simp add: clean_up_apply related_ids_def)
      have "E0 \<notin> ?Q k'" if "k' \<in> {Scene, Script, Automation, Group}" for k'
        using E0 that by (intro not_related_special) auto
      then have 2: "E0 \<in> clean_up ?Q Entity"
        by (simp add: clean_up_apply) (simp add: related_ids_def related.entry)
      from fin 2 1 show "found (search h pick Entity E0) Scene S"
        by (rule found_search) simp
    qed
  }
  show "search (h\<lparr>entities_in_scene := f\<rparr>) pick Entity E0 = search h pick Entity E0"
    by (rule search_scene_contents)
  show "\<not> found (search h pick Entity E0) kk E"
    if "\<forall>k'. \<not> found (search (h\<lparr>entities_in_scene := f\<rparr>) pick Entity E0) k' E"
    using that by (simp add: search_scene_contents)
qed

text \<open>
  The amended statement at \<open>demo_hass\<close>. From \<open>scene.s\<close>: \<open>light.c\<close> is found under \<open>entity\<close>,
  \<open>script.foo\<close> under \<open>script\<close> and not under \<open>entity\<close>. From \<open>light.a\<close>: \<open>scene.s\<close> is found
  under \<open>scene\<close>, and \<open>light.c\<close>, which shares only the scene with \<open>light.a\<close>, is not found.
\<close>

theorem terminal_kinds_only_expanded_as_entry_witness:
  "finite_graph demo_hass
   \<and> ''light.c'' \<in> set (entities_in_scene demo_hass ''scene.s'') \<and> ''light.c'' \<noteq> ''scene.s''
   \<and> domain_kind (split_entity_id ''light.c'') = None
   \<and> found (search demo_hass pop_last Scene ''scene.s'') Entity ''light.c''
   \<and> ''script.foo'' \<in> set (entities_in_scene demo_hass ''scene.s'')
   \<and> domain_kind (split_entity_id ''script.foo'') = Some Script
   \<and> (Script, ''script.foo'') \<noteq> (Scene, ''scene.s'')
   \<and> found (search demo_hass pop_last Scene ''scene.s'') Script ''script.foo''
   \<and> \<not> found (search demo_hass pop_last Scene ''scene.s'') Entity ''script.foo''
   \<and> ''scene.s'' \<in> set (scenes_with_entity demo_hass ''light.a'')
   \<and> domain_kind (split_entity_id ''light.a'') = None
   \<and> domain_kind (split_entity_id ''scene.s'') = Some Scene
   \<and> found (search demo_hass pop_last Entity ''light.a'') Scene ''scene.s''
   \<and> search (demo_hass\<lparr>entities_in_scene := entities_in_scene empty_hass\<rparr>) pop_last
         Entity ''light.a''
       = search demo_hass pop_last Entity ''light.a''
   \<and> (\<forall>k'. \<not> found (search (demo_hass\<lparr>entities_in_scene := entities_in_scene empty_hass\<rparr>)
               pop_last Entity ''light.a'') k' ''light.c'')
   \<and> ''light.a'' \<noteq> ''light.c''
   \<and> ''light.a'' \<in> set (entities_in_scene demo_hass ''scene.s'')
   \<and> \<not> found (search demo_hass pop_last Entity ''light.a'') Entity ''light.c''"
proof -
  have a: "''light.c'' \<in> set (entities_in_scene demo_hass ''scene.s'')"
    "''script.foo'' \<in> set (entities_in_scene demo_hass ''scene.s'')"
    "''light.a'' \<in> set (entities_in_scene demo_hass ''scene.s'')"
    "''scene.s'' \<in> set (scenes_with_entity demo_hass ''light.a'')"
    by (simp_all add: demo_hass_def)
  have b: "domain_kind (split_entity_id ''light.c'') = None"
    "domain_kind (split_entity_id ''script.foo'') = Some Script"
    "domain_kind (split_entity_id ''scene.s'') = Some Scene"
    "domain_kind (split_entity_id ''light.a'') = None"
    by (simp_all add: domain_kind_def split_entity_id_def)
  have c: "\<forall>k'. \<not> found (search (demo_hass\<lparr>entities_in_scene := entities_in_scene empty_hass\<rparr>)
               pop_last Entity ''light.a'') k' ''light.c''"
    by (subst search_pop_first)
       (auto simp: demo_light_no_scenes found_def bucket_def demo_light_result_def
          split: if_splits)
  note plain = terminal_kinds_only_expanded_as_entry[where h = demo_hass and pick = pop_last
      and S = "''scene.s''" and E = "''light.c''" and ?E0.0 = "''light.a''" and k = Script
      and f = "entities_in_scene empty_hass" and kk = Entity]
  note spaced = terminal_kinds_only_expanded_as_entry[where h = demo_hass and pick = pop_last
      and S = "''scene.s''" and E = "''script.foo''" and ?E0.0 = "''light.a''" and k = Script
      and f = "entities_in_scene empty_hass" and kk = Entity]
  from plain spaced a b c finite_graph_demo show ?thesis by simp
qed

text \<open>
  The first half of the statement fails as first written: \<open>scene.s\<close> stores \<open>script.foo\<close>, and
  the search from \<open>scene.s\<close> returns it under \<open>script\<close>, not under \<open>entity\<close>.
\<close>

theorem terminal_kinds_counterexample:
  "''script.foo'' \<in> set (entities_in_scene demo_hass ''scene.s'')
   \<and> \<not> found (search demo_hass pop_first Scene ''scene.s'') Entity ''script.foo''
   \<and> found (search demo_hass pop_first Scene ''scene.s'') Script ''script.foo''"
  by (simp add: demo_scene_first found_def bucket_def demo_scene_result_def)
     (simp add: demo_hass_def)

subsection \<open>An entity entry point that is a script\<close>

text \<open>
  C2. The search is expected to return for an \<open>entity\<close> entry that is a script; the code
  raises instead. For an entry \<open>(entity, e)\<close> whose id lies in
  the scene, automation, script or group namespace, on any finite object graph and for any
  order of popping, the search raises \<open>KeyError\<close>: the entity rule records \<open>e\<close> under its
  specific kind, the clean-up then takes \<open>e\<close> out of the \<open>entity\<close> bucket, and
  \<open>results[item_type].remove(item_id)\<close> no longer finds it there.
\<close>

theorem script_entity_entry_raises:
  assumes "finite_graph h" and "domain_kind (split_entity_id e) = Some k"
  shows "search h pick Entity e = Some (Inl KeyError)"
proof -
  let ?R = "related_ids h (Entity, e)"
  have "(k, e) \<in> related h (Entity, e)"
    by (rule related_entry_neighbours) (simp add: assms(2))
  then have "e \<in> ?R k" by (simp add: related_ids_def)
  moreover have "k \<in> {Scene, Automation, Script, Group}"
    using assms(2) by (rule domain_kind_Some)
  ultimately have "e \<notin> clean_up ?R Entity" by (auto simp: clean_up_apply)
  then have "finish Entity e ?R = Inl KeyError" by (rule finish_KeyError)
  then show ?thesis using assms(1) by (simp add: search_char finite_related)
qed

theorem script_entity_entry_raises_witness:
  "finite_graph empty_hass \<and> domain_kind (split_entity_id ''script.foo'') = Some Script
   \<and> search empty_hass pop_first Entity ''script.foo'' = Some (Inl KeyError)"
proof -
  have d: "domain_kind (split_entity_id ''script.foo'') = Some Script"
    by (simp add: domain_kind_def split_entity_id_def)
  from script_entity_entry_raises[OF finite_graph_empty d, of pop_first] d finite_graph_empty
  show ?thesis by simp
qed

subsection \<open>Specific kinds are recorded, not enqueued\<close>

text \<open>
  C3, as amended. When the entity rule processes an id \<open>e\<close> of the scene, automation, script
  or group namespace, \<open>e\<close> is recorded in the bucket of that specific kind \<open>k\<close>, but the pair
  \<open>(k, e)\<close> is not enqueued: it is pending after the rule only if it was pending before, and
  at any point of any search it is pending only if it is the entry point of that search.
  So the rule of the specific kind runs for the entry point alone.
\<close>

theorem specific_kind_recorded_not_enqueued:
  assumes "domain_kind (split_entity_id e) = Some k"
  shows "e \<in> results (resolve_entity h e s) k
     \<and> ((k, e) \<in> set (to_resolve (resolve_entity h e s)) \<longrightarrow> (k, e) \<in> set (to_resolve s))
     \<and> ((k, e) \<in> set (to_resolve (run h pick item_type item_id t))
          \<longrightarrow> (k, e) = (item_type, item_id))"
proof (intro conjI impI)
  have k: "k \<in> DONT_RESOLVE" using assms by (rule domain_kind_DONT_RESOLVE)
  have "(k, e) \<in> set (neighbours h (Entity, e))" by (simp add: assms)
  then have "(k, e) \<in> visited (resolve_entity h e s)"
    by (simp add: resolve_entity_add_all visited_add_all)
  then show "e \<in> results (resolve_entity h e s) k" by (simp add: visited_def)
  show "(k, e) \<in> set (to_resolve s)" if "(k, e) \<in> set (to_resolve (resolve_entity h e s))"
    using that k by (simp add: resolve_entity_add_all to_resolve_add_all)
  show "(k, e) = (item_type, item_id)"
    if "(k, e) \<in> set (to_resolve (run h pick item_type item_id t))"
    using search_inv_run[of h item_type item_id pick t] that k
    by (auto simp: search_inv_def expanded_def)
qed

theorem specific_kind_recorded_not_enqueued_witness:
  "domain_kind (split_entity_id ''scene.s'') = Some Scene
   \<and> ''scene.s'' \<in> results (resolve_entity demo_hass ''scene.s'' (seed new_searcher Scene ''scene.s'')) Scene
   \<and> (Scene, ''scene.s'')
        \<in> set (to_resolve (resolve_entity demo_hass ''scene.s'' (seed new_searcher Scene ''scene.s'')))
   \<and> (Scene, ''scene.s'') \<in> set (to_resolve (seed new_searcher Scene ''scene.s''))
   \<and> (Scene, ''scene.s'') \<in> set (to_resolve (run demo_hass pop_first Scene ''scene.s'' 0))
   \<and> (Scene, ''scene.s'') = (Scene, ''scene.s'')"
proof -
  have d: "domain_kind (split_entity_id ''scene.s'') = Some Scene"
    by (simp add: domain_kind_def split_entity_id_def)
  have r: "(Scene, ''scene.s'')
        \<in> set (to_resolve (resolve_entity demo_hass ''scene.s'' (seed new_searcher Scene ''scene.s'')))"
    by (simp add: eval_defs demo_hass_def)
  have q: "(Scene, ''scene.s'') \<in> set (to_resolve (run demo_hass pop_first Scene ''scene.s'' 0))"
    by (simp add: run_def eval_defs)
  note inst = specific_kind_recorded_not_enqueued[OF d, where h = demo_hass
      and s = "seed new_searcher Scene ''scene.s''" and pick = pop_first and item_type = Scene
      and item_id = "''scene.s''" and t = 0]
  from inst d r q show ?thesis by simp
qed

text \<open>
  The statement fails as first written: the entity rule applied to \<open>scene.s\<close> records it under
  \<open>scene\<close> and leaves nothing pending, and the search from \<open>light.a\<close> finds \<open>scene.s\<close> but not
  \<open>light.c\<close>, which only the scene rule of \<open>scene.s\<close> could have discovered.
\<close>

theorem specific_kind_counterexample:
  "domain_kind (split_entity_id ''scene.s'') = Some Scene
   \<and> ''scene.s'' \<in> results (resolve_entity demo_hass ''scene.s'' new_searcher) Scene
   \<and> (Scene, ''scene.s'') \<notin> set (to_resolve (resolve_entity demo_hass ''scene.s'' new_searcher))
   \<and> ''light.c'' \<in> set (entities_in_scene demo_hass ''scene.s'')
   \<and> found (search demo_hass pop_first Entity ''light.a'') Scene ''scene.s''
   \<and> \<not> found (search demo_hass pop_first Entity ''light.a'') Entity ''light.c''"
  by (simp add: demo_light_first found_def bucket_def demo_light_result_def)
     (simp add: eval_defs demo_hass_def)

subsection \<open>Termination\<close>

text \<open>
  C4. On every finite object graph (cycles or not) the search returns, whatever the order of
  popping. The reason is the one the claim gives: the pending list never holds a pair
  twice, and a pair that is recorded and no longer pending at some point of the run is not
  pending at any later point, so every pair is enqueued at most once.
\<close>

theorem search_terminates:
  "finite_graph h \<Longrightarrow>
     (\<exists>r. search h pick item_type item_id = Some r)
     \<and> distinct (to_resolve (run h pick item_type item_id t))
     \<and> (t \<le> t' \<longrightarrow> n \<in> visited (run h pick item_type item_id t)
          \<longrightarrow> n \<notin> set (to_resolve (run h pick item_type item_id t))
          \<longrightarrow> n \<notin> set (to_resolve (run h pick item_type item_id t')))"
proof (intro conjI impI)
  assume "finite_graph h"
  then show "\<exists>r. search h pick item_type item_id = Some r"
    by (simp add: search_char finite_related)
  show "distinct (to_resolve (run h pick item_type item_id t))"
    using search_inv_run[of h item_type item_id pick t] by (simp add: search_inv_def)
  show "n \<notin> set (to_resolve (run h pick item_type item_id t'))"
    if "t \<le> t'" "n \<in> visited (run h pick item_type item_id t)"
      "n \<notin> set (to_resolve (run h pick item_type item_id t))"
    using done_run_mono[OF that(1), of h pick item_type item_id] that(2,3) by blast
qed

text \<open>\<open>demo_hass\<close> has the cycles area, device, area and entity, scene, entity.\<close>

theorem search_terminates_witness:
  "finite_graph demo_hass
     \<and> (\<exists>r. search demo_hass pop_last Area ''a1'' = Some r)
     \<and> distinct (to_resolve (run demo_hass pop_last Area ''a1'' 1))
     \<and> (1::nat) \<le> 2
     \<and> (Area, ''a1'') \<in> visited (run demo_hass pop_last Area ''a1'' 1)
     \<and> (Area, ''a1'') \<notin> set (to_resolve (run demo_hass pop_last Area ''a1'' 1))
     \<and> (Area, ''a1'') \<notin> set (to_resolve (run demo_hass pop_last Area ''a1'' 2))"
proof -
  have v: "(Area, ''a1'') \<in> visited (run demo_hass pop_last Area ''a1'' 1)"
    by (simp add: run_def eval_defs demo_hass_def visited_def pop_last_def)
  have w: "(Area, ''a1'') \<notin> set (to_resolve (run demo_hass pop_last Area ''a1'' 1))"
    by (simp add: run_def eval_defs demo_hass_def pop_last_def)
  note inst = search_terminates[OF finite_graph_demo, where pick = pop_last and item_type = Area
      and item_id = "''a1''" and t = 1 and t' = 2 and n = "(Area, ''a1'')"]
  from inst v w finite_graph_demo show ?thesis by simp
qed

subsection \<open>No self-inclusion\<close>

text \<open>
  C5. Whenever a search returns a mapping, the bucket of the entry kind in that mapping does
  not contain the entry id.
\<close>

theorem no_self_inclusion:
  "search h pick item_type item_id = Some (Inr m) \<Longrightarrow> item_id \<notin> bucket m item_type"
  by (auto simp: search_def async_search_def split: option.splits dest!: finish_Inr)

theorem no_self_inclusion_witness:
  "search demo_hass pop_first Scene ''scene.s'' = Some (Inr demo_scene_result)
     \<and> ''scene.s'' \<notin> bucket demo_scene_result Scene"
  using no_self_inclusion[OF demo_scene_first] demo_scene_first by simp

subsection \<open>The entity bucket and the specific kinds\<close>

text \<open>
  C6. In every mapping a search returns, the \<open>entity\<close> bucket is disjoint from each of the
  \<open>scene\<close>, \<open>script\<close>, \<open>automation\<close> and \<open>group\<close> buckets.
\<close>

theorem entity_bucket_exclusive:
  "search h pick item_type item_id = Some (Inr m) \<Longrightarrow> k \<in> {Scene, Script, Automation, Group}
     \<Longrightarrow> bucket m Entity \<inter> bucket m k = {}"
  by (auto simp: search_def async_search_def clean_up_apply split: option.splits if_splits
      dest!: finish_Inr)

theorem entity_bucket_exclusive_witness:
  "search demo_hass pop_first Entity ''light.a'' = Some (Inr demo_light_result)
     \<and> Scene \<in> {Scene, Script, Automation, Group}
     \<and> bucket demo_light_result Entity \<inter> bucket demo_light_result Scene = {}"
  using entity_bucket_exclusive[OF demo_light_first, of Scene] demo_light_first by simp

subsection \<open>The order of popping\<close>

text \<open>
  C7. For the same object graph and the same entry pair, any two orders of popping give the
  same outcome: the same mapping, the same error, or no return in both cases.
\<close>

theorem search_order_independent:
  "search h pick1 item_type item_id = search h pick2 item_type item_id"
  by (simp add: search_char)

theorem search_order_independent_witness:
  "search demo_hass pop_last Scene ''scene.s'' = Some (Inr demo_scene_result)"
  using search_order_independent[of demo_hass pop_last Scene "''scene.s''" pop_first]
  by (simp add: demo_scene_first)

subsection \<open>An entry id that does not resolve\<close>

text \<open>
  C8. The search is expected to return for every entry id that does not resolve; the code
  does so with one exception. When every query made for the entry id comes back empty,
  the search returns the empty mapping, except for an
  \<open>entity\<close> entry whose id lies in the scene, automation, script or group namespace: there
  it raises \<open>KeyError\<close>, by the same defect as in C2.
\<close>

theorem dangling_entry:
  assumes "dangling h item_type item_id"
  shows "search h pick item_type item_id =
     (if item_type = Entity \<and> domain_kind (split_entity_id item_id) \<noteq> None
      then Some (Inl KeyError) else Some (Inr Map.empty))"
proof -
  let ?R = "related_ids h (item_type, item_id)"
  note rel = dangling_related[OF assms] dangling_neighbours[OF assms]
  have fin: "finite (related h (item_type, item_id))" by (simp add: rel(1))
  show ?thesis
  proof (cases "item_type = Entity \<and> domain_kind (split_entity_id item_id) \<noteq> None")
    case True
    then obtain k where k: "domain_kind (split_entity_id item_id) = Some k" by auto
    have "(k, item_id) \<in> related h (item_type, item_id)"
      unfolding rel using True k by simp
    then have "item_id \<in> ?R k" by (simp add: related_ids_def)
    moreover have "k \<in> {Scene, Automation, Script, Group}" using k by (rule domain_kind_Some)
    ultimately have "item_id \<notin> clean_up ?R Entity" by (auto simp: clean_up_apply)
    then show ?thesis using True fin by (simp add: search_char finish_KeyError)
  next
    case False
    then have "neighbours h (item_type, item_id) = []"
      unfolding rel(2) by (cases "item_type = Entity") auto
    then have "related h (item_type, item_id) = {(item_type, item_id)}"
      unfolding rel(1) by simp
    then have R: "?R = (\<lambda>k. if k = item_type then {item_id} else {})"
      by (auto simp: related_ids_def fun_eq_iff)
    have "finish item_type item_id ?R = Inr Map.empty"
      unfolding R by (auto simp: finish_def clean_up_def Let_def fun_eq_iff)
    then show ?thesis using False fin by (simp add: search_char)
  qed
qed

theorem dangling_entry_witness:
  "dangling empty_hass Entity ''group.ghost''
   \<and> search empty_hass pop_first Entity ''group.ghost'' = Some (Inl KeyError)"
proof -
  have d: "dangling empty_hass Entity ''group.ghost''" by (simp add: empty_hass_def)
  have k: "domain_kind (split_entity_id ''group.ghost'') = Some Group"
    by (simp add: domain_kind_def split_entity_id_def)
  from dangling_entry[OF d, of pop_first] d k show ?thesis by simp
qed

subsection \<open>Idempotent discovery\<close>

text \<open>
  C9. \<open>add_or_resolve\<close> on a pair whose id is already in the bucket of its kind returns the
  searcher unchanged: neither \<open>results\<close> nor \<open>_to_resolve\<close> changes.
\<close>

theorem add_or_resolve_idempotent:
  "item_id \<in> results s item_type \<Longrightarrow> add_or_resolve item_type item_id s = s"
  by (simp add: add_or_resolve_def)

theorem add_or_resolve_idempotent_witness:
  "''light.a'' \<in> results (seed new_searcher Entity ''light.a'') Entity
     \<and> add_or_resolve Entity ''light.a'' (seed new_searcher Entity ''light.a'')
         = seed new_searcher Entity ''light.a''"
proof -
  have h: "''light.a'' \<in> results (seed new_searcher Entity ''light.a'') Entity"
    by (simp add: seed_def new_searcher_def)
  show ?thesis using h add_or_resolve_idempotent[OF h] by simp
qed

subsection \<open>Pending pairs are recorded\<close>

text \<open>
  C10. The seed step establishes, and every \<open>add_or_resolve\<close> keeps, that each pending pair
  is recorded in the bucket of its kind. A pair pending after \<open>t\<close> turns of the loop is
  recorded after any later number of turns, and in the state the loop ends with.
\<close>

theorem pending_pairs_recorded:
  "pending_recorded (seed new_searcher item_type item_id)
   \<and> (pending_recorded s \<longrightarrow> pending_recorded (add_or_resolve k i s))
   \<and> (t \<le> t' \<longrightarrow>
        (\<forall>n \<in> set (to_resolve (run h pick item_type item_id t)).
           snd n \<in> results (run h pick item_type item_id t') (fst n)))
   \<and> (drain h pick (seed new_searcher item_type item_id) = Some s' \<longrightarrow>
        (\<forall>n \<in> set (to_resolve (run h pick item_type item_id t)). snd n \<in> results s' (fst n)))"
proof (intro conjI impI)
  show "pending_recorded (seed new_searcher item_type item_id)"
    using pending_recorded_run[of h pick item_type item_id 0] by (simp add: run_0)
  show "pending_recorded (add_or_resolve k i s)" if "pending_recorded s"
    using that by (rule pending_recorded_add_or_resolve)
  have later: "set (to_resolve (run h pick item_type item_id t))
      \<subseteq> visited (run h pick item_type item_id u)" if "t \<le> u" for u
    using pending_recorded_run[of h pick item_type item_id t] visited_run_mono[OF that]
    unfolding pending_recorded_visited by blast
  show "\<forall>n \<in> set (to_resolve (run h pick item_type item_id t)).
           snd n \<in> results (run h pick item_type item_id t') (fst n)" if "t \<le> t'"
    using later[OF that] by (auto simp: visited_def)
  show "\<forall>n \<in> set (to_resolve (run h pick item_type item_id t)). snd n \<in> results s' (fst n)"
    if "drain h pick (seed new_searcher item_type item_id) = Some s'"
  proof -
    from drain_Some_iter[OF that] obtain T where s': "s' = run h pick item_type item_id T"
      and emp: "to_resolve (run h pick item_type item_id T) = []"
      by (auto simp: run_def)
    show ?thesis
    proof (cases "t \<le> T")
      case True
      from later[OF True] show ?thesis by (auto simp: visited_def s')
    next
      case False
      then have "T \<le> t" by simp
      from run_stays_empty[OF this emp] emp show ?thesis by simp
    qed
  qed
qed

theorem pending_pairs_recorded_witness:
  "pending_recorded (seed new_searcher Entity ''light.c'')
   \<and> pending_recorded (add_or_resolve Device ''d1'' (seed new_searcher Entity ''light.c''))
   \<and> (1::nat) \<le> 2
   \<and> to_resolve (run demo_hass pop_first Entity ''light.c'' 1) = [(Entity, ''scene.s'')]
   \<and> ''scene.s'' \<in> results (run demo_hass pop_first Entity ''light.c'' 2) Entity
   \<and> drain demo_hass pop_first (seed new_searcher Entity ''light.c'') = Some light_c_final
   \<and> ''scene.s'' \<in> results light_c_final Entity"
proof -
  have run1: "to_resolve (run demo_hass pop_first Entity ''light.c'' 1) = [(Entity, ''scene.s'')]"
    by (simp add: run_def eval_defs demo_hass_def)
  note inst = pending_pairs_recorded[of Entity "''light.c''"
      "seed new_searcher Entity ''light.c''" Device "''d1''" 1 2 demo_hass pop_first light_c_final]
  from inst drain_light_c run1 show ?thesis by simp
qed

subsection \<open>Empty buckets\<close>

text \<open>
  X1. A mapping returned by a search has no empty bucket: a kind with no surviving id is
  absent from it.
\<close>

theorem empty_buckets_omitted:
  "search h pick item_type item_id = Some (Inr m) \<Longrightarrow> m k \<noteq> Some {}"
  by (auto simp: search_def async_search_def finish_def Let_def split: option.splits if_splits)

theorem empty_buckets_omitted_witness:
  "search demo_hass pop_first Scene ''scene.s'' = Some (Inr demo_scene_result)
     \<and> demo_scene_result Scene \<noteq> Some {}"
  using empty_buckets_omitted[OF demo_scene_first, of Scene] demo_scene_first by simp

end
